theory Spec2Isabelle
  imports Complex_Main "HOL-Library.Char_ord" "HOL-Library.List_Lexorder"
begin

section \<open>Wire messages\<close>

text \<open>
  The message classes are generated from \<^verbatim>\<open>market_data.proto\<close>, which is not among the
  sources; the two programs only use their accessors. Prices and quantities are
  \<^verbatim>\<open>double\<close>s. Neither program computes with the values it receives: the client copies
  them, compares prices as keys of a \<^verbatim>\<open>std::map\<close> and tests \<^verbatim>\<open>quantity > 0\<close>. They are
  modelled as the real numbers that the finite doubles denote; NaN (on which
  \<^verbatim>\<open>std::map\<close>'s ordering is not a strict weak order) and the infinities are outside the
  model.
\<close>

text \<open>Modelled from the spec: the generated message type \<^verbatim>\<open>PriceLevel\<close>
  (price: float64, quantity: float64).\<close>

record PriceLevel =
  price :: real
  quantity :: real

text \<open>Modelled from the spec: the generated message type \<^verbatim>\<open>MarketDataUpdate\<close>, a tagged
  union of a Snapshot (instrument id, bids, asks) and an IncrementalUpdate (instrument id,
  bid updates, ask updates). \<open>NotSet\<close> is the message in which neither
  \<^verbatim>\<open>has_snapshot()\<close> nor \<^verbatim>\<open>has_incremental_update()\<close> holds.\<close>

datatype MarketDataUpdate =
    Snapshot string "PriceLevel list" "PriceLevel list"
  | IncrementalUpdate string "PriceLevel list" "PriceLevel list"
  | NotSet

section \<open>The client: \<^verbatim>\<open>MarketDataClient\<close> (market_data_client.cc)\<close>

text \<open>
  \<^verbatim>\<open>std::map<double, double>\<close> is a finite map from price to quantity, and
  \<^verbatim>\<open>std::map<std::string, std::map<double, double>>\<close> a finite map from instrument id to
  such a side. The reading loop never iterates over them (only \<^verbatim>\<open>PrintOrderBook\<close> does,
  to display them), so they are maps looked up by key. The state of the client is its
  two members \<^verbatim>\<open>order_books_bids_\<close> and \<^verbatim>\<open>order_books_asks_\<close>.
\<close>

type_synonym side = "real \<rightharpoonup> real"

type_synonym books = "string \<rightharpoonup> side"

record client =
  order_books_bids :: books
  order_books_asks :: books

text \<open>\<^verbatim>\<open>books[id]\<close>: \<^verbatim>\<open>operator[]\<close> inserts an empty side under a key that is absent
  (\<open>touch\<close> is that effect on the outer map) and yields a reference to the side
  (\<open>side_at\<close> reads through it).\<close>

definition touch :: "books \<Rightarrow> string \<Rightarrow> books" where
  "touch m i = (case m i of None \<Rightarrow> m(i \<mapsto> Map.empty) | Some _ \<Rightarrow> m)"

definition side_at :: "books \<Rightarrow> string \<Rightarrow> side" where
  "side_at m i = (case m i of None \<Rightarrow> Map.empty | Some sd \<Rightarrow> sd)"

text \<open>\<^verbatim>\<open>books[id].clear()\<close>\<close>

definition clear_side :: "books \<Rightarrow> string \<Rightarrow> books" where
  "clear_side m i = (touch m i)(i \<mapsto> Map.empty)"

text \<open>\<^verbatim>\<open>books[id][p] = q\<close>\<close>

definition assign_level :: "books \<Rightarrow> string \<Rightarrow> real \<Rightarrow> real \<Rightarrow> books" where
  "assign_level m i p q = (touch m i)(i \<mapsto> (side_at (touch m i) i)(p \<mapsto> q))"

text \<open>\<^verbatim>\<open>books[id].erase(p)\<close>\<close>

definition erase_level :: "books \<Rightarrow> string \<Rightarrow> real \<Rightarrow> books" where
  "erase_level m i p = (touch m i)(i \<mapsto> (side_at (touch m i) i)(p := None))"

text \<open>The two loops of the snapshot branch (lines 86 to 91): every level is stored as
  it comes.\<close>

fun populate :: "books \<Rightarrow> string \<Rightarrow> PriceLevel list \<Rightarrow> books" where
  "populate m i [] = m"
| "populate m i (l # ls) = populate (assign_level m i (price l) (quantity l)) i ls"

text \<open>The body of the two loops of the incremental branch (lines 103 to 108 and 112 to
  117), and the loops.\<close>

definition apply_change :: "books \<Rightarrow> string \<Rightarrow> PriceLevel \<Rightarrow> books" where
  "apply_change m i l =
     (if quantity l > 0 then assign_level m i (price l) (quantity l)
      else erase_level m i (price l))"

fun apply_changes :: "books \<Rightarrow> string \<Rightarrow> PriceLevel list \<Rightarrow> books" where
  "apply_changes m i [] = m"
| "apply_changes m i (l # ls) = apply_changes (apply_change m i l) i ls"

text \<open>The body of the reading loop (lines 76 to 121) on one received message. Both
  branches end with \<^verbatim>\<open>PrintOrderBook(id, order_books_bids_[id], order_books_asks_[id])\<close>,
  whose two \<^verbatim>\<open>operator[]\<close> are kept; what it prints is not modelled.\<close>

fun process_update :: "client \<Rightarrow> MarketDataUpdate \<Rightarrow> client" where
  "process_update c (Snapshot i bs as) =
     \<lparr> order_books_bids = touch (populate (clear_side (order_books_bids c) i) i bs) i,
       order_books_asks = touch (populate (clear_side (order_books_asks c) i) i as) i \<rparr>"
| "process_update c (IncrementalUpdate i bs as) =
     \<lparr> order_books_bids = touch (apply_changes (order_books_bids c) i bs) i,
       order_books_asks = touch (apply_changes (order_books_asks c) i as) i \<rparr>"
| "process_update c NotSet = c"

text \<open>\<^verbatim>\<open>while (stream_->Read(&update))\<close> over the messages the stream delivers, from the
  client's initial state.\<close>

definition new_client :: client where
  "new_client = \<lparr> order_books_bids = Map.empty, order_books_asks = Map.empty \<rparr>"

fun read_stream :: "client \<Rightarrow> MarketDataUpdate list \<Rightarrow> client" where
  "read_stream c [] = c"
| "read_stream c (u # us) = read_stream (process_update c u) us"

text \<open>The last level a message carries for a price.\<close>

definition last_for :: "PriceLevel list \<Rightarrow> real \<Rightarrow> PriceLevel option" where
  "last_for ls p = find (\<lambda>l. price l = p) (rev ls)"

subsection \<open>Reading the state\<close>

text \<open>The bid side and the ask side the client holds for an instrument (empty when it
  holds none), and the side that a sequence of changed levels leads to: for each price
  the last level of the sequence decides, a level with quantity above zero storing its
  quantity and any other removing the price.\<close>

definition bids_of :: "client \<Rightarrow> string \<Rightarrow> side" where
  "bids_of c i = side_at (order_books_bids c) i"

definition asks_of :: "client \<Rightarrow> string \<Rightarrow> side" where
  "asks_of c i = side_at (order_books_asks c) i"

definition resolve :: "side \<Rightarrow> PriceLevel list \<Rightarrow> real \<Rightarrow> real option" where
  "resolve sd ls p =
     (case last_for ls p of
        None \<Rightarrow> sd p
      | Some l \<Rightarrow> if quantity l > 0 then Some (quantity l) else None)"

text \<open>The side that the levels of a snapshot amount to: for each price the quantity
  of the last level that names it, whatever that quantity is.\<close>

definition stored :: "PriceLevel list \<Rightarrow> side" where
  "stored ls p = map_option quantity (last_for ls p)"

text \<open>The changed bid levels and ask levels that a sequence of messages carries for
  an instrument, in the order received.\<close>

fun bid_changes :: "string \<Rightarrow> MarketDataUpdate list \<Rightarrow> PriceLevel list" where
  "bid_changes i [] = []"
| "bid_changes i (IncrementalUpdate j bs as # us) = (if j = i then bs else []) @ bid_changes i us"
| "bid_changes i (u # us) = bid_changes i us"

fun ask_changes :: "string \<Rightarrow> MarketDataUpdate list \<Rightarrow> PriceLevel list" where
  "ask_changes i [] = []"
| "ask_changes i (IncrementalUpdate j bs as # us) = (if j = i then as else []) @ ask_changes i us"
| "ask_changes i (u # us) = ask_changes i us"

fun is_incremental :: "MarketDataUpdate \<Rightarrow> bool" where
  "is_incremental (IncrementalUpdate i bs as) = True"
| "is_incremental u = False"

text \<open>The invariant of the order book sides: no entry has quantity \<open>\<le> 0\<close>.\<close>

definition positive_books :: "books \<Rightarrow> bool" where
  "positive_books m = (\<forall>i sd p q. m i = Some sd \<and> sd p = Some q \<longrightarrow> 0 < q)"

definition all_positive :: "client \<Rightarrow> bool" where
  "all_positive c = (positive_books (order_books_bids c) \<and> positive_books (order_books_asks c))"

fun positive_levels :: "MarketDataUpdate \<Rightarrow> bool" where
  "positive_levels (Snapshot i bs as) = list_all (\<lambda>l. 0 < quantity l) (bs @ as)"
| "positive_levels u = True"

section \<open>The server: \<^verbatim>\<open>MarketDataServiceImpl::Subscribe\<close> (market_data_server.cc)\<close>

text \<open>Modelled from the spec: the generated message type \<^verbatim>\<open>SubscriptionRequest\<close>
  (action: SUBSCRIBE or UNSUBSCRIBE, instrument_id: string).\<close>

datatype Action = SUBSCRIBE | UNSUBSCRIBE

record SubscriptionRequest =
  action :: Action
  instrument_id :: string

text \<open>
  \<^verbatim>\<open>update_threads\<close> and \<^verbatim>\<open>stop_signals\<close> are \<^verbatim>\<open>std::map\<close>s keyed by \<^verbatim>\<open>std::string\<close>,
  and the teardown iterates over both. They are association lists kept in the order of
  their keys (the bytewise lexicographic order of \<^verbatim>\<open>std::string\<close>), read with
  \<^const>\<open>map_of\<close> and written with \<open>map_put\<close>, which is \<^verbatim>\<open>m[k] = v\<close>.
\<close>

fun map_put :: "string \<Rightarrow> 'v \<Rightarrow> (string \<times> 'v) list \<Rightarrow> (string \<times> 'v) list" where
  "map_put k v [] = [(k, v)]"
| "map_put k v (e # es) =
     (if fst e = k then (k, v) # es
      else if k < fst e then (k, v) # e # es
      else e # map_put k v es)"

text \<open>
  A producer thread runs \<^verbatim>\<open>StreamIncrementalUpdates\<close>. Its state is the place it has
  reached: about to evaluate the loop condition (line 39); past it, building its update
  and in \<^verbatim>\<open>stream->Write\<close> until the call returns (lines 40 to 56); or returned; and
  its local \<^verbatim>\<open>update_count\<close>, a C++
  \<^verbatim>\<open>int\<close> of 32 bits, held as the integer it denotes.
  \<open>joinable\<close> is \<^verbatim>\<open>std::thread::joinable()\<close> of the handle stored in
  \<^verbatim>\<open>update_threads\<close>: true from the construction of the thread until it is joined,
  whether or not the thread's function has returned.
\<close>

datatype position = Checking | Writing | Finished

record thread =
  joinable :: bool
  pc :: position
  update_count :: int

text \<open>What an observer of the connection sees: the messages written to the stream, the
  writes that failed, and the producers started.\<close>

datatype effect = Sent MarketDataUpdate | SendFailed MarketDataUpdate | Started string

text \<open>The thread that runs \<^verbatim>\<open>Subscribe\<close> is at \<^verbatim>\<open>stream->Read\<close> (line 90); building the
  initial snapshot and in its \<^verbatim>\<open>stream->Write\<close> until the call returns (lines 100 to
  121); the same for the empty snapshot (lines 148 to 152); or has left the loop.\<close>

datatype main_position = AtRead | AtSnapshotWrite string | AtAckWrite string | LoopEnded

record session =
  update_threads :: "(string \<times> thread) list"
  stop_signals :: "(string \<times> bool) list"
  main_at :: main_position
  history :: "effect list"

definition connected :: session where
  "connected = \<lparr> update_threads = [], stop_signals = [], main_at = AtRead, history = [] \<rparr>"

text \<open>
  Arithmetic on \<^verbatim>\<open>int\<close>: \<^verbatim>\<open>update_count++\<close>, \<^verbatim>\<open>update_count * 10\<close> and the sums of lines
  49 and 53 leave the range of 32 bits once \<^verbatim>\<open>update_count\<close> has grown far enough. C++
  leaves signed overflow undefined; \<open>wrap32\<close> is the two's complement result that the
  compiled program computes.
\<close>

definition wrap32 :: "int \<Rightarrow> int" where
  "wrap32 x = (x + 2147483648) mod 4294967296 - 2147483648"

text \<open>The messages the server builds: the snapshot of lines 100 to 119, the empty
  snapshot of lines 148 to 150 and the update of lines 40 to 53. The producer computes
  its prices in double arithmetic (\<^verbatim>\<open>99.0 + 0.1\<close>), whose results are the doubles nearest
  to the sums; the model takes the sums themselves.\<close>

definition initial_snapshot :: "string \<Rightarrow> MarketDataUpdate" where
  "initial_snapshot i =
     Snapshot i
       [\<lparr> price = 99.5, quantity = 100 \<rparr>, \<lparr> price = 99.0, quantity = 200 \<rparr>]
       [\<lparr> price = 100.0, quantity = 150 \<rparr>, \<lparr> price = 100.5, quantity = 250 \<rparr>]"

definition empty_snapshot :: "string \<Rightarrow> MarketDataUpdate" where
  "empty_snapshot i = Snapshot i [] []"

definition price_change :: "int \<Rightarrow> real" where
  "price_change n = (if n mod 2 = 0 then 0.1 else - 0.1)"

definition incremental :: "string \<Rightarrow> int \<Rightarrow> MarketDataUpdate" where
  "incremental i n =
     IncrementalUpdate i
       [\<lparr> price = 99.0 + price_change n,
          quantity = of_int (wrap32 (200 + wrap32 (n * 10))) \<rparr>]
       [\<lparr> price = 100.0 - price_change n,
          quantity = of_int (wrap32 (150 + wrap32 (n * 5))) \<rparr>]"

text \<open>\<^verbatim>\<open>update_threads.find(id) != update_threads.end() && update_threads.at(id).joinable()\<close>:
  the test of line 140, and the negation of the test of line 98.\<close>

definition streaming :: "(string \<times> thread) list \<Rightarrow> string \<Rightarrow> bool" where
  "streaming ts i = (case map_of ts i of None \<Rightarrow> False | Some t \<Rightarrow> joinable t)"

text \<open>\<^verbatim>\<open>stop_streaming.load()\<close> in the producer of instrument \<open>i\<close>, which holds a
  reference to \<^verbatim>\<open>stop_signals[i]\<close>.\<close>

definition stop_requested :: "(string \<times> bool) list \<Rightarrow> string \<Rightarrow> bool" where
  "stop_requested sg i = (map_of sg i = Some True)"

subsection \<open>The read loop\<close>

text \<open>From \<^verbatim>\<open>stream->Read\<close> returning a request to the next call on the stream
  (lines 91 to 98 and 138 to 150).\<close>

definition on_request :: "session \<Rightarrow> SubscriptionRequest \<Rightarrow> session" where
  "on_request s r =
     (case action r of
        SUBSCRIBE \<Rightarrow>
          if \<not> streaming (update_threads s) (instrument_id r)
          then s\<lparr> main_at := AtSnapshotWrite (instrument_id r) \<rparr>
          else s
      | UNSUBSCRIBE \<Rightarrow>
          (if streaming (update_threads s) (instrument_id r)
           then s\<lparr> stop_signals := map_put (instrument_id r) True (stop_signals s) \<rparr>
           else s)
          \<lparr> main_at := AtAckWrite (instrument_id r) \<rparr>)"

text \<open>From the return of the main thread's \<^verbatim>\<open>stream->Write\<close>, with its result, to the next
  \<^verbatim>\<open>stream->Read\<close> or to the \<^verbatim>\<open>break\<close> (lines 121 to 132 and 152 to 158).\<close>

definition on_write :: "session \<Rightarrow> bool \<Rightarrow> session" where
  "on_write s ok =
     (case main_at s of
        AtSnapshotWrite i \<Rightarrow>
          if ok
          then s\<lparr> history := history s @ [Sent (initial_snapshot i), Started i],
                  stop_signals := map_put i False (stop_signals s),
                  update_threads :=
                    map_put i \<lparr> joinable = True, pc = Checking, update_count = 0 \<rparr>
                      (update_threads s),
                  main_at := AtRead \<rparr>
          else s\<lparr> history := history s @ [SendFailed (initial_snapshot i)],
                  main_at := LoopEnded \<rparr>
      | AtAckWrite i \<Rightarrow>
          if ok
          then s\<lparr> history := history s @ [Sent (empty_snapshot i)], main_at := AtRead \<rparr>
          else s\<lparr> history := history s @ [SendFailed (empty_snapshot i)],
                  main_at := LoopEnded \<rparr>
      | AtRead \<Rightarrow> s
      | LoopEnded \<Rightarrow> s)"

subsection \<open>The producer\<close>

text \<open>\<^verbatim>\<open>while (!stop_streaming.load() && !context->IsCancelled())\<close>, and the write
  with what follows it (lines 56 to 62).\<close>

definition thread_check :: "bool \<Rightarrow> bool \<Rightarrow> thread \<Rightarrow> thread" where
  "thread_check stop cancelled t =
     (if pc t = Checking
      then (if \<not> stop \<and> \<not> cancelled then t\<lparr> pc := Writing \<rparr> else t\<lparr> pc := Finished \<rparr>)
      else t)"

definition thread_write :: "bool \<Rightarrow> thread \<Rightarrow> thread" where
  "thread_write ok t =
     (if pc t = Writing
      then (if ok then t\<lparr> update_count := wrap32 (update_count t + 1), pc := Checking \<rparr>
            else t\<lparr> pc := Finished \<rparr>)
      else t)"

definition producer_check :: "session \<Rightarrow> string \<Rightarrow> bool \<Rightarrow> session" where
  "producer_check s i cancelled =
     (case map_of (update_threads s) i of
        None \<Rightarrow> s
      | Some t \<Rightarrow>
          if pc t = Checking
          then s\<lparr> update_threads :=
                    map_put i (thread_check (stop_requested (stop_signals s) i) cancelled t)
                      (update_threads s) \<rparr>
          else s)"

definition producer_write :: "session \<Rightarrow> string \<Rightarrow> bool \<Rightarrow> session" where
  "producer_write s i ok =
     (case map_of (update_threads s) i of
        None \<Rightarrow> s
      | Some t \<Rightarrow>
          if pc t = Writing
          then s\<lparr> history :=
                    history s @
                      [if ok then Sent (incremental i (update_count t))
                       else SendFailed (incremental i (update_count t))],
                  update_threads := map_put i (thread_write ok t) (update_threads s) \<rparr>
          else s)"

subsection \<open>Executions\<close>

text \<open>
  The threads of one connection share the stream and the stop flags. An execution is
  the sequence of their accesses to these: \<^verbatim>\<open>stream->Read\<close> returning a request or
  \<^verbatim>\<open>false\<close>, the main thread's \<^verbatim>\<open>stream->Write\<close> returning, a producer evaluating its
  loop condition (with the value of \<^verbatim>\<open>context->IsCancelled()\<close>) and a producer's
  \<^verbatim>\<open>stream->Write\<close> returning. An event that the thread concerned is not ready for
  leaves the state as it is. A thread that has reached its write stays there until the
  event of the return, and the other threads go on meanwhile. The source takes no lock
  around any of the three calls (lines 56, 121 and 152): only its own progress stands
  between a thread at its write and the inside of \<^verbatim>\<open>stream->Write\<close>, so the writes of
  all the threads that are at their writes in a state can be in progress together. The
  history records a message when its write returns.
\<close>

datatype event =
    Read "SubscriptionRequest option"
  | Write bool
  | ProducerCheck string bool
  | ProducerWrite string bool

fun step :: "session \<Rightarrow> event \<Rightarrow> session" where
  "step s (Read None) = (if main_at s = AtRead then s\<lparr> main_at := LoopEnded \<rparr> else s)"
| "step s (Read (Some r)) = (if main_at s = AtRead then on_request s r else s)"
| "step s (Write ok) = on_write s ok"
| "step s (ProducerCheck i cancelled) = producer_check s i cancelled"
| "step s (ProducerWrite i ok) = producer_write s i ok"

text \<open>The two requests a client sends, as read by the server.\<close>

definition subscribe :: "string \<Rightarrow> event" where
  "subscribe i = Read (Some \<lparr> action = SUBSCRIBE, instrument_id = i \<rparr>)"

definition unsubscribe :: "string \<Rightarrow> event" where
  "unsubscribe i = Read (Some \<lparr> action = UNSUBSCRIBE, instrument_id = i \<rparr>)"

fun run :: "session \<Rightarrow> event list \<Rightarrow> session" where
  "run s [] = s"
| "run s (e # es) = run (step s e) es"


subsection \<open>Writers and late updates\<close>

text \<open>The writers whose \<^verbatim>\<open>stream->Write\<close> is in progress in a state: the main thread
  when it is at one of its two writes, and the producer of every instrument whose
  thread is at its write. The writes are exclusive when at most one is in progress.\<close>

datatype writer = MainThread | Producer string

definition main_writing :: "session \<Rightarrow> bool" where
  "main_writing s =
     (case main_at s of
        AtSnapshotWrite _ \<Rightarrow> True | AtAckWrite _ \<Rightarrow> True | AtRead \<Rightarrow> False
      | LoopEnded \<Rightarrow> False)"

definition writers :: "session \<Rightarrow> writer list" where
  "writers s =
     (if main_writing s then [MainThread] else []) @
     map (\<lambda>e. Producer (fst e)) (filter (\<lambda>e. pc (snd e) = Writing) (update_threads s))"

definition writes_exclusive :: "session \<Rightarrow> bool" where
  "writes_exclusive s = (length (writers s) \<le> 1)"




subsection \<open>Teardown\<close>

text \<open>Lines 166 to 168: every stop flag is set.\<close>

definition signal_all :: "(string \<times> bool) list \<Rightarrow> (string \<times> bool) list" where
  "signal_all sg = map (\<lambda>e. (fst e, True)) sg"

text \<open>
  \<^verbatim>\<open>join()\<close> returns when the thread's function has returned. A producer whose stop
  flag is set returns after at most its pending write (whose result is \<open>ok\<close>) and one
  evaluation of its loop condition, which does not reach \<^verbatim>\<open>IsCancelled()\<close>. For a
  producer that is still running and whose flag is not set the result is \<open>None\<close>:
  nothing makes it return, and the join may block for ever.
\<close>

definition await_exit :: "bool \<Rightarrow> bool \<Rightarrow> thread \<Rightarrow> thread option" where
  "await_exit stop ok t =
     (if stop \<or> pc t = Finished then Some (thread_check True False (thread_write ok t))
      else None)"

text \<open>Lines 171 to 175. \<open>w i\<close> is the result of the write that the producer of \<open>i\<close> may
  still have pending; the messages written by producers while they are awaited are not
  recorded in the history.\<close>

fun join_all ::
  "(string \<times> bool) list \<Rightarrow> (string \<Rightarrow> bool) \<Rightarrow> (string \<times> thread) list \<Rightarrow>
     (string \<times> thread) list option" where
  "join_all sg w [] = Some []"
| "join_all sg w (e # es) =
     (if joinable (snd e)
      then (case await_exit (stop_requested sg (fst e)) (w (fst e)) (snd e) of
              None \<Rightarrow> None
            | Some t \<Rightarrow>
                map_option ((#) (fst e, t\<lparr> joinable := False \<rparr>)) (join_all sg w es))
      else map_option ((#) e) (join_all sg w es))"

definition teardown :: "(string \<Rightarrow> bool) \<Rightarrow> session \<Rightarrow> session option" where
  "teardown w s =
     (case join_all (signal_all (stop_signals s)) w (update_threads s) of
        None \<Rightarrow> None
      | Some ts \<Rightarrow>
          Some (s\<lparr> stop_signals := signal_all (stop_signals s), update_threads := ts \<rparr>))"

subsection \<open>Invariants of the executions\<close>

text \<open>Every handle in \<^verbatim>\<open>update_threads\<close> is joinable; every instrument with a thread has
  a stop flag; a producer has been started for exactly the instruments that have a
  thread, the main thread being about to send an initial snapshot only for an
  instrument that has none; and the keys of \<^verbatim>\<open>update_threads\<close> are in strictly increasing
  order. The last definition is what holds from an UNSUBSCRIBE for an instrument with a
  thread onwards.\<close>

definition all_joinable :: "session \<Rightarrow> bool" where
  "all_joinable s = list_all (\<lambda>e. joinable (snd e)) (update_threads s)"

definition all_signalled :: "session \<Rightarrow> bool" where
  "all_signalled s = list_all (\<lambda>e. map_of (stop_signals s) (fst e) \<noteq> None) (update_threads s)"

definition once :: "session \<Rightarrow> bool" where
  "once s =
     (\<forall>i. count_list (history s) (Started i)
             = (if map_of (update_threads s) i = None then 0 else 1)
          \<and> (main_at s = AtSnapshotWrite i \<longrightarrow> map_of (update_threads s) i = None))"

definition keys_ordered :: "session \<Rightarrow> bool" where
  "keys_ordered s = sorted_wrt (<) (map fst (update_threads s))"


section \<open>Properties of the client\<close>

lemma side_at_touch [simp]: "side_at (touch m i) j = side_at m j"
  by (simp add: touch_def side_at_def split: option.splits)

lemma touch_present: "m i = Some sd \<Longrightarrow> touch m i = m"
  by (simp add: touch_def)

lemma touch_other: "j \<noteq> i \<Longrightarrow> touch m i j = m j"
  by (simp add: touch_def split: option.splits)

lemma touch_self: "touch m i i = Some (side_at m i)"
  by (simp add: touch_def side_at_def split: option.splits)

lemma side_at_assign:
  "side_at (assign_level m i p q) j = (if j = i then (side_at m i)(p \<mapsto> q) else side_at m j)"
  by (simp add: assign_level_def side_at_def touch_def split: option.splits)

lemma side_at_erase:
  "side_at (erase_level m i p) j = (if j = i then (side_at m i)(p := None) else side_at m j)"
  by (simp add: erase_level_def side_at_def touch_def split: option.splits)

lemma side_at_clear:
  "side_at (clear_side m i) j = (if j = i then Map.empty else side_at m j)"
  by (simp add: clear_side_def side_at_def touch_def split: option.splits)

subsection \<open>Incremental updates\<close>

lemma side_at_apply_change:
  "side_at (apply_change m i l) j =
     (if j = i
      then (if quantity l > 0 then (side_at m i)(price l \<mapsto> quantity l)
            else (side_at m i)(price l := None))
      else side_at m j)"
  by (simp add: apply_change_def side_at_assign side_at_erase)

lemma find_snoc:
  "find P (xs @ [x]) = (case find P xs of None \<Rightarrow> (if P x then Some x else None) | Some y \<Rightarrow> Some y)"
  by (induction xs) simp_all

lemma last_for_Nil [simp]: "last_for [] p = None"
  by (simp add: last_for_def)

lemma last_for_Cons:
  "last_for (l # ls) p =
     (case last_for ls p of None \<Rightarrow> (if price l = p then Some l else None) | Some k \<Rightarrow> Some k)"
  by (simp add: last_for_def find_snoc split: option.splits)

lemma last_for_append:
  "last_for (ks @ ls) p = (case last_for ls p of None \<Rightarrow> last_for ks p | Some k \<Rightarrow> Some k)"
  by (induction ks) (simp_all add: last_for_Cons split: option.splits)

lemma resolve_Nil [simp]: "resolve sd [] = sd"
  by (rule ext) (simp add: resolve_def last_for_def)

lemma resolve_append: "resolve (resolve sd ks) ls = resolve sd (ks @ ls)"
  by (rule ext) (simp add: resolve_def last_for_append split: option.splits)

lemma side_at_apply_changes:
  "side_at (apply_changes m i ls) j = (if j = i then resolve (side_at m i) ls else side_at m j)"
proof (induction ls arbitrary: m)
  case Nil
  show ?case by simp
next
  case (Cons l ls)
  have "resolve (side_at (apply_change m i l) i) ls = resolve (side_at m i) (l # ls)"
    by (rule ext) (simp add: resolve_def last_for_Cons side_at_apply_change split: option.splits)
  with Cons show ?case by (simp add: side_at_apply_change)
qed

lemma apply_changes_snoc:
  "apply_changes m i (ls @ [l]) = apply_change (apply_changes m i ls) i l"
  by (induction ls arbitrary: m) simp_all

lemma bids_of_incremental:
  "bids_of (process_update c (IncrementalUpdate j bs as)) i =
     (if j = i then resolve (bids_of c i) bs else bids_of c i)"
  by (simp add: bids_of_def side_at_apply_changes)

lemma asks_of_incremental:
  "asks_of (process_update c (IncrementalUpdate j bs as)) i =
     (if j = i then resolve (asks_of c i) as else asks_of c i)"
  by (simp add: asks_of_def side_at_apply_changes)

lemma bids_of_read_stream:
  "list_all is_incremental us \<Longrightarrow>
     bids_of (read_stream c us) i = resolve (bids_of c i) (bid_changes i us)"
proof (induction us arbitrary: c)
  case Nil
  show ?case by simp
next
  case (Cons u us)
  then obtain j bs as where u: "u = IncrementalUpdate j bs as"
    by (cases u) simp_all
  from Cons have "bids_of (read_stream (process_update c u) us) i =
      resolve (bids_of (process_update c u) i) (bid_changes i us)"
    by simp
  then show ?case
    unfolding u by (simp add: bids_of_incremental resolve_append del: process_update.simps)
qed

lemma asks_of_read_stream:
  "list_all is_incremental us \<Longrightarrow>
     asks_of (read_stream c us) i = resolve (asks_of c i) (ask_changes i us)"
proof (induction us arbitrary: c)
  case Nil
  show ?case by simp
next
  case (Cons u us)
  then obtain j bs as where u: "u = IncrementalUpdate j bs as"
    by (cases u) simp_all
  from Cons have "asks_of (read_stream (process_update c u) us) i =
      resolve (asks_of (process_update c u) i) (ask_changes i us)"
    by simp
  then show ?case
    unfolding u by (simp add: asks_of_incremental resolve_append del: process_update.simps)
qed

text \<open>
  C1. For every sequence of incremental updates that the client applies, the bid side
  and the ask side of an instrument end as the changed levels for that instrument
  decide, in the order received, the last level for a price winning. A level with
  quantity \<open>> 0\<close> leaves its price present with exactly that quantity; a level with
  quantity \<open>0\<close> removes its price, and leaves the side as it was when the price was
  absent; the levels of a message are applied one after the other.
\<close>

theorem incremental_updates_applied:
  "(list_all is_incremental us \<longrightarrow>
      bids_of (read_stream c us) i = resolve (bids_of c i) (bid_changes i us)
      \<and> asks_of (read_stream c us) i = resolve (asks_of c i) (ask_changes i us))
   \<and> (0 < quantity l \<longrightarrow>
        side_at (apply_change m i l) i = (side_at m i)(price l \<mapsto> quantity l))
   \<and> (quantity l = 0 \<longrightarrow>
        side_at (apply_change m i l) i = (side_at m i)(price l := None))
   \<and> (quantity l = 0 \<and> side_at m i (price l) = None \<longrightarrow>
        side_at (apply_change m i l) i = side_at m i)
   \<and> apply_changes m i (ls @ [l]) = apply_change (apply_changes m i ls) i l"
proof -
  have "quantity l = 0 \<and> side_at m i (price l) = None \<longrightarrow>
      side_at (apply_change m i l) i = side_at m i"
    by (auto simp: side_at_apply_change)
  then show ?thesis
    by (simp add: bids_of_read_stream asks_of_read_stream side_at_apply_change
        apply_changes_snoc)
qed

text \<open>
  Two updates for AAPL, the first naming the price 99 twice; and single levels applied
  to a side that holds the price 99.
\<close>

theorem incremental_updates_applied_witness:
  "list_all is_incremental
     [IncrementalUpdate ''AAPL''
        [\<lparr> price = 99, quantity = 5 \<rparr>, \<lparr> price = 98, quantity = 7 \<rparr>,
         \<lparr> price = 99, quantity = 0 \<rparr>, \<lparr> price = 97, quantity = 0 \<rparr>] [],
      IncrementalUpdate ''AAPL'' [\<lparr> price = 98, quantity = 3 \<rparr>] []]
   \<and> bids_of (read_stream new_client
      [IncrementalUpdate ''AAPL''
         [\<lparr> price = 99, quantity = 5 \<rparr>, \<lparr> price = 98, quantity = 7 \<rparr>,
          \<lparr> price = 99, quantity = 0 \<rparr>, \<lparr> price = 97, quantity = 0 \<rparr>] [],
       IncrementalUpdate ''AAPL'' [\<lparr> price = 98, quantity = 3 \<rparr>] []]) ''AAPL''
     = [98 \<mapsto> 3]
   \<and> side_at (apply_change (Map.empty(''AAPL'' \<mapsto> [99 \<mapsto> 5])) ''AAPL''
        \<lparr> price = 99, quantity = 7 \<rparr>) ''AAPL'' = [99 \<mapsto> 7]
   \<and> side_at (apply_change (Map.empty(''AAPL'' \<mapsto> [99 \<mapsto> 5])) ''AAPL''
        \<lparr> price = 99, quantity = 0 \<rparr>) ''AAPL'' = Map.empty
   \<and> side_at (apply_change (Map.empty(''AAPL'' \<mapsto> [99 \<mapsto> 5])) ''AAPL''
        \<lparr> price = 98, quantity = 0 \<rparr>) ''AAPL'' = [99 \<mapsto> 5]"
  using incremental_updates_applied [of
      "[IncrementalUpdate ''AAPL''
         [\<lparr> price = 99, quantity = 5 \<rparr>, \<lparr> price = 98, quantity = 7 \<rparr>,
          \<lparr> price = 99, quantity = 0 \<rparr>, \<lparr> price = 97, quantity = 0 \<rparr>] [],
       IncrementalUpdate ''AAPL'' [\<lparr> price = 98, quantity = 3 \<rparr>] []]"
      new_client "''AAPL''" "\<lparr> price = 99, quantity = 0 \<rparr>"
      "Map.empty(''AAPL'' \<mapsto> [99 \<mapsto> 5])" "[]"]
    incremental_updates_applied [of "[]" new_client "''AAPL''" "\<lparr> price = 98, quantity = 0 \<rparr>"
      "Map.empty(''AAPL'' \<mapsto> [99 \<mapsto> 5])" "[]"]
    incremental_updates_applied [of "[]" new_client "''AAPL''" "\<lparr> price = 99, quantity = 7 \<rparr>"
      "Map.empty(''AAPL'' \<mapsto> [99 \<mapsto> 5])" "[]"]
  by (auto simp: new_client_def bids_of_def side_at_def resolve_def last_for_def fun_eq_iff)

subsection \<open>Snapshots\<close>

lemma touch_upd [simp]: "touch (m(i \<mapsto> sd)) i = m(i \<mapsto> sd)"
  by (simp add: touch_def)

lemma clear_side_eq: "clear_side m i = m(i \<mapsto> Map.empty)"
  by (simp add: clear_side_def touch_def split: option.splits)

lemma assign_level_upd: "assign_level (m(i \<mapsto> sd)) i p q = m(i \<mapsto> sd(p \<mapsto> q))"
  by (simp add: assign_level_def side_at_def)

lemma populate_upd:
  "populate (m(i \<mapsto> sd)) i ls = m(i \<mapsto> (\<lambda>p. case last_for ls p of None \<Rightarrow> sd p | Some l \<Rightarrow> Some (quantity l)))"
proof (induction ls arbitrary: sd)
  case Nil
  show ?case by simp
next
  case (Cons l ls)
  have eq: "(\<lambda>p. case last_for ls p of None \<Rightarrow> (sd(price l \<mapsto> quantity l)) p | Some k \<Rightarrow> Some (quantity k))
      = (\<lambda>p. case last_for (l # ls) p of None \<Rightarrow> sd p | Some k \<Rightarrow> Some (quantity k))"
    by (rule ext) (simp add: last_for_Cons split: option.splits)
  have "populate (m(i \<mapsto> sd)) i (l # ls) = populate (m(i \<mapsto> sd(price l \<mapsto> quantity l))) i ls"
    by (simp only: populate.simps assign_level_upd)
  also have "\<dots> = m(i \<mapsto> (\<lambda>p. case last_for ls p of None \<Rightarrow> (sd(price l \<mapsto> quantity l)) p | Some k \<Rightarrow> Some (quantity k)))"
    by (rule Cons)
  finally show ?case
    by (simp only: eq)
qed

lemma populate_cleared: "touch (populate (clear_side m i) i ls) i = m(i \<mapsto> stored ls)"
proof -
  have "(\<lambda>p. case last_for ls p of None \<Rightarrow> Map.empty p | Some l \<Rightarrow> Some (quantity l)) = stored ls"
    by (rule ext) (simp add: stored_def split: option.splits)
  then show ?thesis
    by (simp add: clear_side_eq populate_upd)
qed

lemma process_snapshot:
  "process_update c (Snapshot i bs as) =
     \<lparr> order_books_bids = (order_books_bids c)(i \<mapsto> stored bs),
       order_books_asks = (order_books_asks c)(i \<mapsto> stored as) \<rparr>"
  by (simp add: populate_cleared)

text \<open>
  C7. Applying a snapshot is idempotent: applied a second time it leaves the client's
  state exactly as the first application left it. The first application replaces both
  sides of the instrument by the levels of the snapshot, whatever they held before.
\<close>

theorem snapshot_idempotent:
  "process_update (process_update c (Snapshot i bs as)) (Snapshot i bs as)
     = process_update c (Snapshot i bs as)
   \<and> order_books_bids (process_update c (Snapshot i bs as)) i = Some (stored bs)
   \<and> order_books_asks (process_update c (Snapshot i bs as)) i = Some (stored as)"
  by (simp add: process_snapshot del: process_update.simps)

text \<open>
  The server's snapshot for AAPL, applied to a new client and to one that holds a bid.
\<close>

theorem snapshot_idempotent_witness:
  "process_update (process_update new_client (initial_snapshot ''AAPL'')) (initial_snapshot ''AAPL'')
     = process_update new_client (initial_snapshot ''AAPL'')
   \<and> bids_of (process_update
         \<lparr> order_books_bids = [''AAPL'' \<mapsto> [98 \<mapsto> 1]], order_books_asks = Map.empty \<rparr>
         (initial_snapshot ''AAPL'')) ''AAPL''
       = [99.5 \<mapsto> 100, 99 \<mapsto> 200]"
proof -
  have "stored [\<lparr> price = 99.5, quantity = 100 \<rparr>, \<lparr> price = 99.0, quantity = 200 \<rparr>]
      = [99.5 \<mapsto> 100, 99 \<mapsto> 200]"
    by (rule ext) (simp add: stored_def last_for_def)
  with snapshot_idempotent [of new_client "''AAPL''"
      "[\<lparr> price = 99.5, quantity = 100 \<rparr>, \<lparr> price = 99.0, quantity = 200 \<rparr>]"
      "[\<lparr> price = 100.0, quantity = 150 \<rparr>, \<lparr> price = 100.5, quantity = 250 \<rparr>]"]
    snapshot_idempotent [of
      "\<lparr> order_books_bids = [''AAPL'' \<mapsto> [98 \<mapsto> 1]], order_books_asks = Map.empty \<rparr>" "''AAPL''"
      "[\<lparr> price = 99.5, quantity = 100 \<rparr>, \<lparr> price = 99.0, quantity = 200 \<rparr>]"
      "[\<lparr> price = 100.0, quantity = 150 \<rparr>, \<lparr> price = 100.5, quantity = 250 \<rparr>]"]
  show ?thesis
    by (simp add: initial_snapshot_def bids_of_def side_at_def del: process_update.simps)
qed

text \<open>
  C10. The unsubscribe acknowledgement, a snapshot with an instrument id and no levels,
  empties the book of the instrument without deleting it: both sides are present and
  empty afterwards, and the sides of every other instrument are as before.
\<close>

theorem empty_snapshot_empties:
  "order_books_bids (process_update c (empty_snapshot i)) i = Some Map.empty
   \<and> order_books_asks (process_update c (empty_snapshot i)) i = Some Map.empty
   \<and> (j \<noteq> i \<longrightarrow>
        order_books_bids (process_update c (empty_snapshot i)) j = order_books_bids c j
        \<and> order_books_asks (process_update c (empty_snapshot i)) j = order_books_asks c j)"
proof -
  have "stored [] = Map.empty"
    by (rule ext) (simp add: stored_def)
  then show ?thesis
    unfolding empty_snapshot_def by (simp add: process_snapshot del: process_update.simps)
qed

text \<open>
  The acknowledgement for AAPL applied to a client that holds books for AAPL and MSFT.
\<close>

theorem empty_snapshot_empties_witness:
  "order_books_bids (process_update
       \<lparr> order_books_bids = [''AAPL'' \<mapsto> [99 \<mapsto> 200], ''MSFT'' \<mapsto> [50 \<mapsto> 10]],
         order_books_asks = [''AAPL'' \<mapsto> [100 \<mapsto> 150], ''MSFT'' \<mapsto> [51 \<mapsto> 20]] \<rparr>
       (empty_snapshot ''AAPL'')) ''AAPL'' = Some Map.empty
   \<and> order_books_asks (process_update
       \<lparr> order_books_bids = [''AAPL'' \<mapsto> [99 \<mapsto> 200], ''MSFT'' \<mapsto> [50 \<mapsto> 10]],
         order_books_asks = [''AAPL'' \<mapsto> [100 \<mapsto> 150], ''MSFT'' \<mapsto> [51 \<mapsto> 20]] \<rparr>
       (empty_snapshot ''AAPL'')) ''AAPL'' = Some Map.empty
   \<and> order_books_bids (process_update
       \<lparr> order_books_bids = [''AAPL'' \<mapsto> [99 \<mapsto> 200], ''MSFT'' \<mapsto> [50 \<mapsto> 10]],
         order_books_asks = [''AAPL'' \<mapsto> [100 \<mapsto> 150], ''MSFT'' \<mapsto> [51 \<mapsto> 20]] \<rparr>
       (empty_snapshot ''AAPL'')) ''MSFT'' = Some [50 \<mapsto> 10]
   \<and> order_books_asks (process_update
       \<lparr> order_books_bids = [''AAPL'' \<mapsto> [99 \<mapsto> 200], ''MSFT'' \<mapsto> [50 \<mapsto> 10]],
         order_books_asks = [''AAPL'' \<mapsto> [100 \<mapsto> 150], ''MSFT'' \<mapsto> [51 \<mapsto> 20]] \<rparr>
       (empty_snapshot ''AAPL'')) ''MSFT'' = Some [51 \<mapsto> 20]"
  using empty_snapshot_empties [of
      "\<lparr> order_books_bids = [''AAPL'' \<mapsto> [99 \<mapsto> 200], ''MSFT'' \<mapsto> [50 \<mapsto> 10]],
         order_books_asks = [''AAPL'' \<mapsto> [100 \<mapsto> 150], ''MSFT'' \<mapsto> [51 \<mapsto> 20]] \<rparr>"
      "''AAPL''" "''MSFT''"]
  by simp

subsection \<open>Instruments without a book\<close>

lemma apply_change_other: "j \<noteq> i \<Longrightarrow> apply_change m i l j = m j"
  by (simp add: apply_change_def assign_level_def erase_level_def touch_other)

lemma apply_changes_other: "j \<noteq> i \<Longrightarrow> apply_changes m i ls j = m j"
  by (induction ls arbitrary: m) (simp_all add: apply_change_other)

lemma touch_apply_changes:
  "touch (apply_changes m i ls) i = m(i \<mapsto> resolve (side_at m i) ls)"
proof (rule ext)
  fix j
  show "touch (apply_changes m i ls) i j = (m(i \<mapsto> resolve (side_at m i) ls)) j"
  proof (cases "j = i")
    case True
    then show ?thesis by (simp add: touch_self side_at_apply_changes)
  next
    case False
    then show ?thesis by (simp add: touch_other apply_changes_other)
  qed
qed

lemma process_incremental:
  "process_update c (IncrementalUpdate i bs as) =
     \<lparr> order_books_bids = (order_books_bids c)(i \<mapsto> resolve (bids_of c i) bs),
       order_books_asks = (order_books_asks c)(i \<mapsto> resolve (asks_of c i) as) \<rparr>"
  by (simp add: touch_apply_changes bids_of_def asks_of_def)

text \<open>
  C5, as amended. An incremental update for an instrument for which the client holds no
  book is not discarded: \<^verbatim>\<open>operator[]\<close> creates both sides of the instrument, empty, and
  the changed levels are applied to them. The books of the other instruments are
  untouched, nothing fails, and the reading loop goes on with the next message.
\<close>

theorem update_without_book_creates_it:
  assumes "order_books_bids c i = None" and "order_books_asks c i = None"
  shows "order_books_bids (process_update c (IncrementalUpdate i bs as)) i
           = Some (resolve Map.empty bs)
         \<and> order_books_asks (process_update c (IncrementalUpdate i bs as)) i
           = Some (resolve Map.empty as)
         \<and> (j \<noteq> i \<longrightarrow>
              order_books_bids (process_update c (IncrementalUpdate i bs as)) j
                = order_books_bids c j
              \<and> order_books_asks (process_update c (IncrementalUpdate i bs as)) j
                = order_books_asks c j)
         \<and> read_stream c (IncrementalUpdate i bs as # us)
             = read_stream (process_update c (IncrementalUpdate i bs as)) us"
proof -
  from assms have "bids_of c i = Map.empty" and "asks_of c i = Map.empty"
    by (simp_all add: bids_of_def asks_of_def side_at_def)
  then show ?thesis
    by (simp add: process_incremental del: process_update.simps)
qed

text \<open>
  A first message for AAPL that is an incremental update.
\<close>

theorem update_without_book_creates_it_witness:
  "order_books_bids new_client ''AAPL'' = None
   \<and> order_books_asks new_client ''AAPL'' = None
   \<and> order_books_bids (process_update new_client
        (IncrementalUpdate ''AAPL'' [\<lparr> price = 99, quantity = 5 \<rparr>] [])) ''AAPL''
       = Some [99 \<mapsto> 5]
   \<and> order_books_asks (process_update new_client
        (IncrementalUpdate ''AAPL'' [\<lparr> price = 99, quantity = 5 \<rparr>] [])) ''AAPL''
       = Some Map.empty
   \<and> order_books_bids (process_update new_client
        (IncrementalUpdate ''AAPL'' [\<lparr> price = 99, quantity = 5 \<rparr>] [])) ''MSFT'' = None"
proof -
  have b: "order_books_bids new_client ''AAPL'' = None"
    and a: "order_books_asks new_client ''AAPL'' = None"
    by (simp_all add: new_client_def)
  have r: "resolve Map.empty [\<lparr> price = 99, quantity = 5 \<rparr>] = [99 \<mapsto> 5]"
    by (rule ext) (simp add: resolve_def last_for_def)
  from update_without_book_creates_it [OF b a, of "[\<lparr> price = 99, quantity = 5 \<rparr>]" "[]" "''MSFT''" "[]"]
  show ?thesis
    by (simp add: r new_client_def del: process_update.simps)
qed

text \<open>
  C5 as stated fails: the client has no book for AAPL, and after an incremental update
  for AAPL it has one, holding the level of the update.
\<close>

theorem update_without_book_not_discarded:
  "order_books_bids new_client ''AAPL'' = None
   \<and> order_books_asks new_client ''AAPL'' = None
   \<and> order_books_bids (process_update new_client
        (IncrementalUpdate ''AAPL'' [\<lparr> price = 99, quantity = 5 \<rparr>] [])) ''AAPL'' \<noteq> None
   \<and> order_books_asks (process_update new_client
        (IncrementalUpdate ''AAPL'' [\<lparr> price = 99, quantity = 5 \<rparr>] [])) ''AAPL'' \<noteq> None
   \<and> bids_of (process_update new_client
        (IncrementalUpdate ''AAPL'' [\<lparr> price = 99, quantity = 5 \<rparr>] [])) ''AAPL'' 99 = Some 5
   \<and> process_update new_client
        (IncrementalUpdate ''AAPL'' [\<lparr> price = 99, quantity = 5 \<rparr>] []) \<noteq> new_client"
proof -
  have "order_books_bids (process_update new_client
        (IncrementalUpdate ''AAPL'' [\<lparr> price = 99, quantity = 5 \<rparr>] [])) ''AAPL'' \<noteq> None"
    by (simp add: process_incremental del: process_update.simps)
  moreover have "order_books_bids new_client ''AAPL'' = None"
    by (simp add: new_client_def)
  ultimately have "process_update new_client
        (IncrementalUpdate ''AAPL'' [\<lparr> price = 99, quantity = 5 \<rparr>] []) \<noteq> new_client"
    by metis
  then show ?thesis
    by (simp add: process_incremental bids_of_def side_at_def resolve_def last_for_def
        new_client_def del: process_update.simps)
qed

subsection \<open>Quantities in the book\<close>

lemma find_in_set: "find P xs = Some x \<Longrightarrow> x \<in> set xs"
  by (induction xs) (auto split: if_splits)

lemma last_for_in_set: "last_for ls p = Some l \<Longrightarrow> l \<in> set ls"
  using find_in_set [of "\<lambda>l. price l = p" "rev ls" l] by (simp add: last_for_def)

lemma positive_books_upd:
  "positive_books m \<Longrightarrow> (\<And>p q. sd p = Some q \<Longrightarrow> 0 < q) \<Longrightarrow> positive_books (m(i \<mapsto> sd))"
  unfolding positive_books_def by (auto split: if_splits)

lemma positive_side_at: "positive_books m \<Longrightarrow> side_at m i p = Some q \<Longrightarrow> 0 < q"
  unfolding positive_books_def side_at_def by (auto split: option.splits)

lemma positive_resolve:
  "positive_books m \<Longrightarrow> resolve (side_at m i) ls p = Some q \<Longrightarrow> 0 < q"
  by (auto simp: resolve_def split: option.splits if_splits dest: positive_side_at)

lemma positive_stored:
  "list_all (\<lambda>l. 0 < quantity l) ls \<Longrightarrow> stored ls p = Some q \<Longrightarrow> 0 < q"
  by (auto simp: stored_def list_all_iff dest: last_for_in_set)

lemma all_positive_process:
  assumes "all_positive c" and "positive_levels u"
  shows "all_positive (process_update c u)"
proof (cases u)
  case (Snapshot i bs as)
  with assms(2) have "list_all (\<lambda>l. 0 < quantity l) bs" "list_all (\<lambda>l. 0 < quantity l) as"
    by simp_all
  with assms(1) show ?thesis
    unfolding Snapshot all_positive_def process_snapshot
    by (auto intro!: positive_books_upd dest: positive_stored)
next
  case (IncrementalUpdate i bs as)
  with assms(1) show ?thesis
    unfolding IncrementalUpdate all_positive_def process_incremental bids_of_def asks_of_def
    by (auto intro!: positive_books_upd dest: positive_resolve)
next
  case NotSet
  with assms(1) show ?thesis by simp
qed

text \<open>
  C6, as amended. If every entry of every side has a quantity above zero, it is so
  again after any sequence of messages in which the levels of the snapshots all have
  quantities above zero. Incremental updates need no condition: a level with a quantity
  of zero or less removes its price.
\<close>

theorem quantities_stay_positive:
  "all_positive c \<Longrightarrow> list_all positive_levels us \<Longrightarrow> all_positive (read_stream c us)"
  by (induction us arbitrary: c) (simp_all add: all_positive_process del: process_update.simps)

lemma all_positive_new_client: "all_positive new_client"
  by (simp add: all_positive_def positive_books_def new_client_def)

text \<open>
  The server's snapshot followed by an update with a zero and a negative quantity.
\<close>

theorem quantities_stay_positive_witness:
  "all_positive new_client
   \<and> list_all positive_levels
       [initial_snapshot ''AAPL'',
        IncrementalUpdate ''AAPL'' [\<lparr> price = 99, quantity = 0 \<rparr>] [\<lparr> price = 100, quantity = - 1 \<rparr>]]
   \<and> all_positive (read_stream new_client
       [initial_snapshot ''AAPL'',
        IncrementalUpdate ''AAPL'' [\<lparr> price = 99, quantity = 0 \<rparr>] [\<lparr> price = 100, quantity = - 1 \<rparr>]])"
proof -
  have l: "list_all positive_levels
       [initial_snapshot ''AAPL'',
        IncrementalUpdate ''AAPL'' [\<lparr> price = 99, quantity = 0 \<rparr>] [\<lparr> price = 100, quantity = - 1 \<rparr>]]"
    by (simp add: initial_snapshot_def)
  from quantities_stay_positive [OF all_positive_new_client l] all_positive_new_client l
  show ?thesis by blast
qed

text \<open>
  C6 as stated fails: the snapshot branch stores what it receives, so a snapshot level
  with quantity zero leaves an entry with quantity zero in the book.
\<close>

theorem snapshot_stores_zero_quantity:
  "all_positive new_client
   \<and> bids_of (process_update new_client
        (Snapshot ''AAPL'' [\<lparr> price = 100, quantity = 0 \<rparr>] [])) ''AAPL'' 100 = Some 0
   \<and> \<not> all_positive (process_update new_client
        (Snapshot ''AAPL'' [\<lparr> price = 100, quantity = 0 \<rparr>] []))"
proof -
  have s: "stored [\<lparr> price = 100, quantity = 0 \<rparr>] 100 = Some 0"
    by (simp add: stored_def last_for_def)
  have n: "\<not> positive_books ((order_books_bids new_client)(''AAPL'' \<mapsto> stored [\<lparr> price = 100, quantity = 0 \<rparr>]))"
    unfolding positive_books_def using s by fastforce
  have "bids_of (process_update new_client
        (Snapshot ''AAPL'' [\<lparr> price = 100, quantity = 0 \<rparr>] [])) ''AAPL'' 100 = Some 0"
    using s by (simp add: process_snapshot bids_of_def side_at_def del: process_update.simps)
  moreover have "\<not> all_positive (process_update new_client
        (Snapshot ''AAPL'' [\<lparr> price = 100, quantity = 0 \<rparr>] []))"
    using n by (simp add: process_snapshot all_positive_def del: process_update.simps)
  ultimately show ?thesis
    using all_positive_new_client by blast
qed

section \<open>Properties of the server\<close>

lemmas server_defs =
  connected_def subscribe_def unsubscribe_def on_request_def on_write_def producer_check_def
  producer_write_def thread_check_def thread_write_def streaming_def stop_requested_def
  wrap32_def

subsection \<open>The tables\<close>

lemma map_of_map_put: "map_of (map_put k v xs) = (map_of xs)(k \<mapsto> v)"
  by (induction xs) (auto simp: fun_eq_iff)

lemma set_map_put: "set (map_put k v xs) \<subseteq> insert (k, v) (set xs)"
  by (induction xs) auto

lemma map_of_signal_all: "map_of (signal_all sg) i = map_option (\<lambda>_. True) (map_of sg i)"
  by (induction sg) (simp_all add: signal_all_def)

lemma signal_all_set: "list_all snd (signal_all sg)"
  by (simp add: signal_all_def list_all_iff)

lemma thread_check_joinable [simp]: "joinable (thread_check st c t) = joinable t"
  by (simp add: thread_check_def)

lemma thread_write_joinable [simp]: "joinable (thread_write ok t) = joinable t"
  by (simp add: thread_write_def)

lemma list_all_map_put:
  "list_all P xs \<Longrightarrow> P (k, v) \<Longrightarrow> list_all P (map_put k v xs)"
  using set_map_put [of k v xs] by (auto simp: list_all_iff)

lemma map_of_in_set: "map_of xs k = Some v \<Longrightarrow> list_all P xs \<Longrightarrow> P (k, v)"
  by (auto simp: list_all_iff dest: map_of_SomeD)

lemma all_joinable_step: "all_joinable s \<Longrightarrow> all_joinable (step s e)"
proof (cases e)
  case (Read r)
  assume "all_joinable s"
  then show ?thesis
    unfolding Read by (cases r) (auto simp: all_joinable_def on_request_def split: Action.splits)
next
  case (Write ok)
  assume "all_joinable s"
  then show ?thesis
    unfolding Write
    by (auto simp: all_joinable_def on_write_def intro!: list_all_map_put
        split: main_position.splits)
next
  case (ProducerCheck i c)
  assume a: "all_joinable s"
  show ?thesis
  proof (cases "map_of (update_threads s) i")
    case None
    with a show ?thesis by (simp add: ProducerCheck producer_check_def)
  next
    case (Some t)
    with a have "joinable t"
      unfolding all_joinable_def by (auto dest: map_of_in_set)
    with a Some show ?thesis
      by (auto simp: ProducerCheck producer_check_def all_joinable_def intro!: list_all_map_put)
  qed
next
  case (ProducerWrite i ok)
  assume a: "all_joinable s"
  show ?thesis
  proof (cases "map_of (update_threads s) i")
    case None
    with a show ?thesis by (simp add: ProducerWrite producer_write_def)
  next
    case (Some t)
    with a have "joinable t"
      unfolding all_joinable_def by (auto dest: map_of_in_set)
    with a Some show ?thesis
      by (auto simp: ProducerWrite producer_write_def all_joinable_def intro!: list_all_map_put)
  qed
qed

lemma all_joinable_run: "all_joinable s \<Longrightarrow> all_joinable (run s es)"
  by (induction es arbitrary: s) (simp_all add: all_joinable_step)

lemma all_joinable_connected: "all_joinable connected"
  by (simp add: all_joinable_def connected_def)

lemma all_signalled_put_signal:
  "all_signalled s \<Longrightarrow> all_signalled (s\<lparr> stop_signals := map_put i b (stop_signals s) \<rparr>)"
  by (simp add: all_signalled_def map_of_map_put list_all_iff)

lemma all_signalled_put_thread:
  "all_signalled s \<Longrightarrow> map_of (stop_signals s) i \<noteq> None \<Longrightarrow>
     all_signalled (s\<lparr> update_threads := map_put i t (update_threads s) \<rparr>)"
  by (auto simp: all_signalled_def intro!: list_all_map_put)

lemma all_signalled_step: "all_signalled s \<Longrightarrow> all_signalled (step s e)"
proof (cases e)
  case (Read r)
  assume a: "all_signalled s"
  show ?thesis
  proof (cases r)
    case None
    with a show ?thesis by (simp add: Read all_signalled_def)
  next
    case (Some q)
    have m: "all_signalled (x\<lparr> main_at := z \<rparr>) = all_signalled x" for x z
      by (simp add: all_signalled_def)
    from a all_signalled_put_signal [OF a] show ?thesis
      by (simp add: Read Some on_request_def m split: Action.splits)
  qed
next
  case (Write ok)
  assume a: "all_signalled s"
  show ?thesis
  proof (cases "main_at s")
    case (AtSnapshotWrite i)
    have "all_signalled (s\<lparr> stop_signals := map_put i False (stop_signals s) \<rparr>
        \<lparr> update_threads := map_put i \<lparr> joinable = True, pc = Checking, update_count = 0 \<rparr>
             (update_threads (s\<lparr> stop_signals := map_put i False (stop_signals s) \<rparr>)) \<rparr>)"
      by (rule all_signalled_put_thread [OF all_signalled_put_signal [OF a]])
        (simp add: map_of_map_put)
    then have "all_signalled (s\<lparr> stop_signals := map_put i False (stop_signals s),
        update_threads := map_put i \<lparr> joinable = True, pc = Checking, update_count = 0 \<rparr>
             (update_threads s) \<rparr>)"
      by simp
    with a show ?thesis
      by (simp add: Write on_write_def AtSnapshotWrite all_signalled_def)
  qed (use a in \<open>simp_all add: Write on_write_def all_signalled_def\<close>)
next
  case (ProducerCheck i c)
  assume a: "all_signalled s"
  show ?thesis
  proof (cases "map_of (update_threads s) i")
    case None
    with a show ?thesis by (simp add: ProducerCheck producer_check_def)
  next
    case (Some t)
    with a have "map_of (stop_signals s) i \<noteq> None"
      unfolding all_signalled_def by (auto dest: map_of_in_set)
    from all_signalled_put_thread [OF a this] Some a show ?thesis
      by (simp add: ProducerCheck producer_check_def)
  qed
next
  case (ProducerWrite i ok)
  assume a: "all_signalled s"
  show ?thesis
  proof (cases "map_of (update_threads s) i")
    case None
    with a show ?thesis by (simp add: ProducerWrite producer_write_def)
  next
    case (Some t)
    with a have "map_of (stop_signals s) i \<noteq> None"
      unfolding all_signalled_def by (auto dest: map_of_in_set)
    from all_signalled_put_thread [OF a this, of "thread_write ok t"] Some a show ?thesis
      by (simp add: ProducerWrite producer_write_def all_signalled_def)
  qed
qed

lemma all_signalled_run: "all_signalled s \<Longrightarrow> all_signalled (run s es)"
  by (induction es arbitrary: s) (simp_all add: all_signalled_step)

lemma all_signalled_connected: "all_signalled connected"
  by (simp add: all_signalled_def connected_def)

subsection \<open>Teardown\<close>

lemma await_exit_stopped:
  "await_exit True ok t = Some (thread_check True False (thread_write ok t))
   \<and> pc (thread_check True False (thread_write ok t)) = Finished"
  by (cases "pc t") (simp_all add: await_exit_def thread_check_def thread_write_def)

lemma join_all_returns:
  "list_all (\<lambda>e. joinable (snd e)) ts \<Longrightarrow>
   list_all (\<lambda>e. map_of sg (fst e) \<noteq> None) ts \<Longrightarrow>
     \<exists>ts'. join_all (signal_all sg) w ts = Some ts' \<and> map fst ts' = map fst ts
       \<and> list_all (\<lambda>e. pc (snd e) = Finished \<and> \<not> joinable (snd e)) ts'"
proof (induction ts)
  case Nil
  show ?case by simp
next
  case (Cons e ts)
  then obtain ts' where ts': "join_all (signal_all sg) w ts = Some ts'"
      "map fst ts' = map fst ts"
      "list_all (\<lambda>e. pc (snd e) = Finished \<and> \<not> joinable (snd e)) ts'"
    by auto
  from Cons.prems have "stop_requested (signal_all sg) (fst e)"
    by (auto simp: stop_requested_def map_of_signal_all)
  with Cons.prems ts' show ?case
    using await_exit_stopped [of "w (fst e)" "snd e"] by simp
qed

text \<open>The three ways out of the read loop, and no way back in.\<close>

lemma loop_ends:
  "main_at s = AtRead \<Longrightarrow> main_at (step s (Read None)) = LoopEnded"
  "main_at s = AtSnapshotWrite i \<Longrightarrow> main_at (step s (Write False)) = LoopEnded"
  "main_at s = AtAckWrite i \<Longrightarrow> main_at (step s (Write False)) = LoopEnded"
  by (simp_all add: on_write_def)

lemma loop_ended_stays: "main_at s = LoopEnded \<Longrightarrow> main_at (step s e) = LoopEnded"
proof (cases e)
  case (Read r)
  assume "main_at s = LoopEnded"
  then show ?thesis
    unfolding Read by (cases r) simp_all
qed (simp_all add: on_write_def producer_check_def producer_write_def split: option.splits)

text \<open>
  C9. However the read loop ended, the teardown returns; it has set every stop flag
  and joined every thread: each producer of the connection has returned and its handle
  is no longer joinable, and no thread has been dropped from the table.
\<close>

theorem teardown_leaves_no_producer:
  assumes "main_at (run connected es) = LoopEnded"
  shows "\<exists>s'. teardown w (run connected es) = Some s'
           \<and> list_all snd (stop_signals s')
           \<and> list_all (\<lambda>e. pc (snd e) = Finished \<and> \<not> joinable (snd e)) (update_threads s')
           \<and> map fst (update_threads s') = map fst (update_threads (run connected es))"
proof -
  have "all_joinable (run connected es)" and "all_signalled (run connected es)"
    by (simp_all add: all_joinable_run all_joinable_connected all_signalled_run
        all_signalled_connected)
  then obtain ts' where "join_all (signal_all (stop_signals (run connected es))) w
        (update_threads (run connected es)) = Some ts'"
      "map fst ts' = map fst (update_threads (run connected es))"
      "list_all (\<lambda>e. pc (snd e) = Finished \<and> \<not> joinable (snd e)) ts'"
    unfolding all_joinable_def all_signalled_def
    using join_all_returns [of "update_threads (run connected es)"
        "stop_signals (run connected es)" w]
    by blast
  then show ?thesis
    by (simp add: teardown_def signal_all_set)
qed

text \<open>
  A connection with two producers whose read loop ends on a failed write.
\<close>

theorem teardown_leaves_no_producer_witness:
  "main_at (run connected
      [subscribe ''MSFT'', Write True, subscribe ''AAPL'', Write True,
       ProducerCheck ''AAPL'' False, unsubscribe ''AAPL'', Write False]) = LoopEnded
   \<and> teardown (\<lambda>i. True) (run connected
      [subscribe ''MSFT'', Write True, subscribe ''AAPL'', Write True,
       ProducerCheck ''AAPL'' False, unsubscribe ''AAPL'', Write False])
     = Some \<lparr> update_threads =
                [(''AAPL'', \<lparr> joinable = False, pc = Finished, update_count = 1 \<rparr>),
                 (''MSFT'', \<lparr> joinable = False, pc = Finished, update_count = 0 \<rparr>)],
              stop_signals = [(''AAPL'', True), (''MSFT'', True)],
              main_at = LoopEnded,
              history =
                [Sent (initial_snapshot ''MSFT''), Started ''MSFT'',
                 Sent (initial_snapshot ''AAPL''), Started ''AAPL'',
                 SendFailed (empty_snapshot ''AAPL'')] \<rparr>"
proof -
  have e: "main_at (run connected
      [subscribe ''MSFT'', Write True, subscribe ''AAPL'', Write True,
       ProducerCheck ''AAPL'' False, unsubscribe ''AAPL'', Write False]) = LoopEnded"
    by (simp add: server_defs)
  from teardown_leaves_no_producer [OF e, of "\<lambda>i. True"] e show ?thesis
    by (simp add: server_defs teardown_def signal_all_def await_exit_def)
qed

subsection \<open>Snapshots and producers\<close>

lemma balanced_step:
  assumes "count_list (history s) (Sent (initial_snapshot i)) = count_list (history s) (Started i)"
  shows "count_list (history (step s e)) (Sent (initial_snapshot i))
           = count_list (history (step s e)) (Started i)"
proof (cases e)
  case (Read r)
  with assms show ?thesis
    by (cases r) (simp_all add: on_request_def split: Action.splits)
next
  case (Write ok)
  with assms show ?thesis
    by (cases "main_at s")
      (simp_all add: on_write_def initial_snapshot_def empty_snapshot_def)
next
  case (ProducerCheck j c)
  with assms show ?thesis
    by (simp add: producer_check_def split: option.splits)
next
  case (ProducerWrite j ok)
  with assms show ?thesis
    by (simp add: producer_write_def initial_snapshot_def incremental_def split: option.splits)
qed

lemma balanced_run:
  "count_list (history s) (Sent (initial_snapshot i)) = count_list (history s) (Started i) \<Longrightarrow>
     count_list (history (run s es)) (Sent (initial_snapshot i))
       = count_list (history (run s es)) (Started i)"
  by (induction es arbitrary: s) (simp_all add: balanced_step del: step.simps)

text \<open>A SUBSCRIBE for an instrument without a thread: the snapshot is sent, then the
  producer is started.\<close>

lemma first_subscribe:
  assumes "main_at s = AtRead" and "map_of (update_threads s) i = None"
  shows "run s [subscribe i, Write True] =
           s\<lparr> history := history s @ [Sent (initial_snapshot i), Started i],
              stop_signals := map_put i False (stop_signals s),
              update_threads :=
                map_put i \<lparr> joinable = True, pc = Checking, update_count = 0 \<rparr> (update_threads s) \<rparr>"
  using assms by (simp add: subscribe_def on_request_def on_write_def streaming_def)

text \<open>
  C3. A SUBSCRIBE read for an instrument whose producer is running changes nothing: no
  snapshot is sent and no producer started. In every execution the initial snapshots
  sent for an instrument are as many as the producers started for it.
\<close>

theorem subscribe_while_active:
  "(main_at (run connected es) = AtRead
      \<and> map_of (update_threads (run connected es)) i = Some t \<and> pc t \<noteq> Finished
     \<longrightarrow> step (run connected es) (subscribe i) = run connected es)
   \<and> count_list (history (run connected es)) (Sent (initial_snapshot i))
       = count_list (history (run connected es)) (Started i)"
proof -
  have "step (run connected es) (subscribe i) = run connected es"
    if "main_at (run connected es) = AtRead"
      and "map_of (update_threads (run connected es)) i = Some t"
  proof -
    have "all_joinable (run connected es)"
      by (simp add: all_joinable_run all_joinable_connected)
    with that(2) have "joinable t"
      unfolding all_joinable_def by (auto dest: map_of_in_set)
    with that show ?thesis
      by (simp add: subscribe_def on_request_def streaming_def)
  qed
  moreover have "count_list (history (run connected es)) (Sent (initial_snapshot i))
       = count_list (history (run connected es)) (Started i)"
    by (rule balanced_run) (simp add: connected_def)
  ultimately show ?thesis by blast
qed

text \<open>
  A second SUBSCRIBE for AAPL while its producer is about to write.
\<close>

theorem subscribe_while_active_witness:
  "main_at (run connected [subscribe ''AAPL'', Write True, ProducerCheck ''AAPL'' False]) = AtRead
   \<and> map_of (update_threads
        (run connected [subscribe ''AAPL'', Write True, ProducerCheck ''AAPL'' False])) ''AAPL''
       = Some \<lparr> joinable = True, pc = Writing, update_count = 0 \<rparr>
   \<and> run connected
        [subscribe ''AAPL'', Write True, ProducerCheck ''AAPL'' False, subscribe ''AAPL'']
       = run connected [subscribe ''AAPL'', Write True, ProducerCheck ''AAPL'' False]
   \<and> history (run connected
        [subscribe ''AAPL'', Write True, ProducerCheck ''AAPL'' False, subscribe ''AAPL''])
       = [Sent (initial_snapshot ''AAPL''), Started ''AAPL'']"
proof -
  have a: "main_at (run connected [subscribe ''AAPL'', Write True, ProducerCheck ''AAPL'' False])
      = AtRead"
    and b: "map_of (update_threads
        (run connected [subscribe ''AAPL'', Write True, ProducerCheck ''AAPL'' False])) ''AAPL''
       = Some \<lparr> joinable = True, pc = Writing, update_count = 0 \<rparr>"
    by (simp_all add: server_defs)
  have r: "run connected
        [subscribe ''AAPL'', Write True, ProducerCheck ''AAPL'' False, subscribe ''AAPL'']
      = step (run connected [subscribe ''AAPL'', Write True, ProducerCheck ''AAPL'' False])
          (subscribe ''AAPL'')"
    by simp
  from subscribe_while_active
    [of "[subscribe ''AAPL'', Write True, ProducerCheck ''AAPL'' False]" "''AAPL''"
      "\<lparr> joinable = True, pc = Writing, update_count = 0 \<rparr>"] a b
  have "step (run connected [subscribe ''AAPL'', Write True, ProducerCheck ''AAPL'' False])
          (subscribe ''AAPL'')
      = run connected [subscribe ''AAPL'', Write True, ProducerCheck ''AAPL'' False]"
    by simp
  moreover have "history (run connected [subscribe ''AAPL'', Write True, ProducerCheck ''AAPL'' False])
      = [Sent (initial_snapshot ''AAPL''), Started ''AAPL'']"
    by (simp add: server_defs)
  ultimately show ?thesis
    using a b unfolding r by simp
qed

subsection \<open>Unsubscribing\<close>











subsection \<open>One producer for an instrument\<close>

lemma once_step:
  assumes "once s" and "all_joinable s"
  shows "once (step s e)"
proof (cases e)
  case (Read r)
  show ?thesis
  proof (cases r)
    case None
    with assms(1) show ?thesis by (simp add: Read once_def)
  next
    case (Some q)
    have "map_of (update_threads s) i = None" if "\<not> streaming (update_threads s) i" for i
    proof (cases "map_of (update_threads s) i")
      case (Some t)
      with assms(2) have "joinable t"
        unfolding all_joinable_def by (auto dest: map_of_in_set)
      with Some that show ?thesis by (simp add: streaming_def)
    qed simp
    with assms(1) show ?thesis
      by (auto simp: Read Some once_def on_request_def split: Action.splits)
  qed
next
  case (Write ok)
  with assms(1) show ?thesis
    by (cases "main_at s") (auto simp: once_def on_write_def map_of_map_put)
next
  case (ProducerCheck j c)
  with assms(1) show ?thesis
    by (auto simp: once_def producer_check_def map_of_map_put split: option.splits)
next
  case (ProducerWrite j ok)
  with assms(1) show ?thesis
    by (auto simp: once_def producer_write_def map_of_map_put split: option.splits)
qed

lemma once_run: "once s \<Longrightarrow> all_joinable s \<Longrightarrow> once (run s es)"
  by (induction es arbitrary: s) (simp_all add: once_step all_joinable_step del: step.simps)

text \<open>
  On one connection a producer is started at most once for an instrument, whatever
  requests follow.
\<close>

lemma producer_started_at_most_once:
  "count_list (history (run connected es)) (Started i) \<le> 1"
proof -
  have "once connected"
    by (simp add: once_def connected_def)
  then have "once (run connected es)"
    by (rule once_run) (rule all_joinable_connected)
  then show ?thesis
    by (simp add: once_def)
qed

subsection \<open>Writes in progress\<close>

lemma keys_map_put: "fst ` set (map_put k v xs) = insert k (fst ` set xs)"
  by (induction xs) auto

lemma sorted_map_put:
  "sorted_wrt (<) (map fst xs) \<Longrightarrow> sorted_wrt (<) (map fst (map_put k v xs))"
proof (induction xs)
  case Nil
  show ?case by simp
next
  case (Cons e xs)
  show ?case
  proof (cases "fst e = k")
    case True
    with Cons.prems show ?thesis by simp
  next
    case False
    show ?thesis
    proof (cases "k < fst e")
      case True
      with Cons.prems False show ?thesis by auto
    next
      case below: False
      with False have "fst e < k" by simp
      moreover from Cons have "sorted_wrt (<) (map fst (map_put k v xs))" by simp
      moreover from Cons.prems have "\<forall>x\<in>fst ` set xs. fst e < x" by simp
      ultimately show ?thesis
        using False below by (simp add: keys_map_put)
    qed
  qed
qed

lemma keys_ordered_step: "keys_ordered s \<Longrightarrow> keys_ordered (step s e)"
proof (cases e)
  case (Read r)
  assume "keys_ordered s"
  then show ?thesis
    unfolding Read by (cases r) (auto simp: keys_ordered_def on_request_def split: Action.splits)
next
  case (Write ok)
  assume "keys_ordered s"
  then show ?thesis
    unfolding Write
    by (cases "main_at s") (simp_all add: keys_ordered_def on_write_def sorted_map_put)
next
  case (ProducerCheck i c)
  assume "keys_ordered s"
  then show ?thesis
    unfolding ProducerCheck
    by (simp add: keys_ordered_def producer_check_def sorted_map_put split: option.splits)
next
  case (ProducerWrite i ok)
  assume "keys_ordered s"
  then show ?thesis
    unfolding ProducerWrite
    by (simp add: keys_ordered_def producer_write_def sorted_map_put split: option.splits)
qed

lemma keys_ordered_run: "keys_ordered s \<Longrightarrow> keys_ordered (run s es)"
  by (induction es arbitrary: s) (simp_all add: keys_ordered_step del: step.simps)

lemma distinct_writers:
  assumes "keys_ordered s"
  shows "distinct (writers s)"
proof -
  from assms have "distinct (map fst (update_threads s))"
    unfolding keys_ordered_def by (simp add: strict_sorted_iff)
  then have "distinct (map fst (filter (\<lambda>e. pc (snd e) = Writing) (update_threads s)))"
    by (rule distinct_map_filter)
  then have "distinct (map Producer
      (map fst (filter (\<lambda>e. pc (snd e) = Writing) (update_threads s))))"
    unfolding distinct_map [of Producer] by (simp add: inj_on_def)
  then have "distinct (map (\<lambda>e. Producer (fst e))
      (filter (\<lambda>e. pc (snd e) = Writing) (update_threads s)))"
    by (simp add: comp_def)
  then show ?thesis
    by (auto simp: writers_def)
qed

lemma no_writer_without_thread:
  "map_of (update_threads s) i = None \<Longrightarrow> Producer i \<notin> set (writers s)"
  by (auto simp: writers_def map_of_eq_None_iff image_iff)

text \<open>
  C8, as amended. The server does not serialise the writers. What holds in every
  execution is that no writer has two writes in progress, there being one main thread
  and at most one producer for an instrument, and that while the initial snapshot for
  an instrument is being written the instrument has no producer: the producer is
  started when that write has returned.
\<close>

theorem writers_of_one_instrument:
  "distinct (writers (run connected es))
   \<and> (main_at (run connected es) = AtSnapshotWrite i \<longrightarrow>
        map_of (update_threads (run connected es)) i = None
        \<and> Producer i \<notin> set (writers (run connected es)))"
proof -
  have "keys_ordered connected"
    by (simp add: keys_ordered_def connected_def)
  then have d: "distinct (writers (run connected es))"
    by (intro distinct_writers keys_ordered_run)
  have "once connected"
    by (simp add: once_def connected_def)
  then have "once (run connected es)"
    by (rule once_run) (rule all_joinable_connected)
  then have "main_at (run connected es) = AtSnapshotWrite i \<longrightarrow>
      map_of (update_threads (run connected es)) i = None"
    by (simp add: once_def)
  with d show ?thesis
    by (auto dest: no_writer_without_thread)
qed

text \<open>
  The main thread at the initial snapshot for MSFT while the producer of AAPL writes.
\<close>

theorem writers_of_one_instrument_witness:
  "main_at (run connected
      [subscribe ''AAPL'', Write True, ProducerCheck ''AAPL'' False, subscribe ''MSFT''])
     = AtSnapshotWrite ''MSFT''
   \<and> writers (run connected
      [subscribe ''AAPL'', Write True, ProducerCheck ''AAPL'' False, subscribe ''MSFT''])
     = [MainThread, Producer ''AAPL'']
   \<and> distinct (writers (run connected
      [subscribe ''AAPL'', Write True, ProducerCheck ''AAPL'' False, subscribe ''MSFT'']))
   \<and> Producer ''MSFT'' \<notin> set (writers (run connected
      [subscribe ''AAPL'', Write True, ProducerCheck ''AAPL'' False, subscribe ''MSFT'']))"
proof -
  have a: "main_at (run connected
      [subscribe ''AAPL'', Write True, ProducerCheck ''AAPL'' False, subscribe ''MSFT''])
     = AtSnapshotWrite ''MSFT''"
    and b: "writers (run connected
      [subscribe ''AAPL'', Write True, ProducerCheck ''AAPL'' False, subscribe ''MSFT''])
     = [MainThread, Producer ''AAPL'']"
    by (simp_all add: server_defs writers_def main_writing_def)
  from writers_of_one_instrument
    [of "[subscribe ''AAPL'', Write True, ProducerCheck ''AAPL'' False, subscribe ''MSFT'']"
      "''MSFT''"] a b
  show ?thesis by simp
qed

text \<open>
  C8 as stated fails. Nothing keeps a second thread from its write while a first is at
  its own: the acknowledgement for AAPL and an update of the producer of AAPL, the
  initial snapshot for MSFT and an update of the producer of AAPL, and the updates of
  two producers are in progress together.
\<close>

theorem writes_overlap:
  "writers (run connected
      [subscribe ''AAPL'', Write True, ProducerCheck ''AAPL'' False, unsubscribe ''AAPL''])
     = [MainThread, Producer ''AAPL'']
   \<and> \<not> writes_exclusive (run connected
      [subscribe ''AAPL'', Write True, ProducerCheck ''AAPL'' False, unsubscribe ''AAPL''])
   \<and> writers (run connected
      [subscribe ''AAPL'', Write True, ProducerCheck ''AAPL'' False, subscribe ''MSFT''])
     = [MainThread, Producer ''AAPL'']
   \<and> \<not> writes_exclusive (run connected
      [subscribe ''AAPL'', Write True, ProducerCheck ''AAPL'' False, subscribe ''MSFT''])
   \<and> writers (run connected
      [subscribe ''AAPL'', Write True, subscribe ''MSFT'', Write True,
       ProducerCheck ''AAPL'' False, ProducerCheck ''MSFT'' False])
     = [Producer ''AAPL'', Producer ''MSFT'']
   \<and> \<not> writes_exclusive (run connected
      [subscribe ''AAPL'', Write True, subscribe ''MSFT'', Write True,
       ProducerCheck ''AAPL'' False, ProducerCheck ''MSFT'' False])"
  by (simp add: server_defs writers_def main_writing_def writes_exclusive_def)

text \<open>
  C2. The execution in which AAPL is subscribed, unsubscribed, its producer sees the
  stop flag and returns, and AAPL is subscribed again: the last request leaves the main
  thread at \<^verbatim>\<open>stream->Read\<close> with nothing sent and no producer started, because the
  handle of the returned thread is still joinable.
\<close>

theorem resubscribe_after_exit:
  "run connected
     [subscribe ''AAPL'', Write True, unsubscribe ''AAPL'', Write True,
      ProducerCheck ''AAPL'' False, subscribe ''AAPL'']
   = \<lparr> update_threads = [(''AAPL'', \<lparr> joinable = True, pc = Finished, update_count = 0 \<rparr>)],
       stop_signals = [(''AAPL'', True)],
       main_at = AtRead,
       history = [Sent (initial_snapshot ''AAPL''), Started ''AAPL'',
                  Sent (empty_snapshot ''AAPL'')] \<rparr>"
  by (simp add: server_defs)

end
